theory Spec2Isabelle
  imports Complex_Main "HOL-Library.Multiset" "HOL-Library.Char_ord"
    "HOL-Library.List_Lexorder" "HOL-Library.Product_Lexorder"
begin

section \<open>The relational schema (app/db/models.py)\<close>

text \<open>
  A table is the list of its rows. A nullable column is an \<open>option\<close> (\<open>None\<close> is SQL's
  NULL); \<open>Integer\<close> columns are \<open>int\<close>, \<open>Numeric(12, 2)\<close> columns are exact rationals.
  The uuid and timestamp columns, which no handler below reads or compares, are left out.
\<close>

record category =
  c_id :: int
  c_name :: string
  c_parent_id :: "int option"
  c_path :: "string option"
  c_level :: "int option"
  c_is_active :: "bool option"

record nomenclature =
  n_id :: int
  n_name :: string
  n_quantity :: int
  n_price :: rat
  n_category_id :: int
  n_is_active :: "bool option"
  n_updated_by :: "string option"

record client =
  cl_id :: int
  cl_name :: string
  cl_is_active :: "bool option"

record order_row =
  o_id :: int
  o_client_id :: int
  o_status :: string
  o_payment_status :: string
  o_notes :: "string option"
  o_created_by :: "string option"

record order_item =
  oi_order_id :: int
  oi_nomenclature_id :: int
  oi_quantity :: int
  oi_price :: rat
  oi_total_price :: rat
  oi_created_by :: "string option"

text \<open>
  The database: the five tables and the sequence that numbers new orders
  (\<open>orders.id\<close> is a serial primary key).
\<close>

record db =
  categories :: "category list"
  nomenclature :: "nomenclature list"
  clients :: "client list"
  orders :: "order_row list"
  order_items :: "order_item list"
  orders_id_seq :: int

text \<open>
  What a handler raises: an HTTPException with its status code, the database's
  IntegrityError, and pydantic's ValidationError when a required field of a response
  model is given None. The \<open>detail\<close> strings of the source are Russian sentences; each
  is named by a constructor here.
\<close>

datatype detail =
  Category_not_found
  | Category_has_children
  | Category_has_products
  | Client_not_found
  | Product_not_found int
  | Insufficient_stock int
  | Price_changed int
  | Order_not_found
  | Order_not_deletable

datatype failure = HTTPException nat detail | IntegrityError | ValidationError

text \<open>\<open>col = TRUE\<close> in a WHERE or ON clause: NULL does not pass.\<close>

definition is_true :: "bool option \<Rightarrow> bool" where
  "is_true b = (b = Some True)"

section \<open>DELETE /categories/{id} (categories.py, delete_category)\<close>

text \<open>
  The handler returns its answer and the database it leaves. Every \<open>raise\<close> comes
  before the first write, so a failure leaves the database as it was. When the DELETE
  runs no row has this category as parent, so the cascade of the \<open>parent_id\<close> foreign
  key has nothing to remove.
\<close>

definition delete_category :: "int \<Rightarrow> db \<Rightarrow> (failure + unit) \<times> db" where
  "delete_category category_id d =
    (let existing = find (\<lambda>c. c_id c = category_id) (categories d);
         children_count = length (filter (\<lambda>c. c_parent_id c = Some category_id) (categories d));
         products_count = length (filter (\<lambda>n. n_category_id n = category_id) (nomenclature d))
     in if existing = None then (Inl (HTTPException 404 Category_not_found), d)
        else if children_count > 0 then (Inl (HTTPException 400 Category_has_children), d)
        else if products_count > 0 then (Inl (HTTPException 400 Category_has_products), d)
        else (Inr (), d\<lparr>categories := filter (\<lambda>c. c_id c \<noteq> category_id) (categories d)\<rparr>))"

section \<open>SQL: joins, grouping, aggregates, ORDER BY\<close>

text \<open>
  \<open>xs LEFT JOIN ys ON on\<close>: every row of \<open>xs\<close> with each of its matches, or once with
  NULLs when it has none.
\<close>

definition left_join :: "('a \<Rightarrow> 'b \<Rightarrow> bool) \<Rightarrow> 'a list \<Rightarrow> 'b list \<Rightarrow> ('a \<times> 'b option) list" where
  "left_join on xs ys =
    concat (map (\<lambda>x. case filter (on x) ys of
                        [] \<Rightarrow> [(x, None)]
                      | m # ms \<Rightarrow> map (\<lambda>y. (x, Some y)) (m # ms)) xs)"

text \<open>\<open>GROUP BY key\<close>: one group for every value of the key, holding the rows that have it.\<close>

definition group_by :: "('r \<Rightarrow> 'k) \<Rightarrow> 'r list \<Rightarrow> ('k \<times> 'r list) list" where
  "group_by key rows = map (\<lambda>k. (k, filter (\<lambda>r. key r = k) rows)) (remdups (map key rows))"

text \<open>
  The aggregates over the non-NULL values of a group: SUM, MIN, MAX and AVG of no value
  are NULL. AVG is the exact quotient (PostgreSQL rounds it to a scale of at least 16
  digits).
\<close>

definition sql_sum :: "'a::monoid_add list \<Rightarrow> 'a option" where
  "sql_sum vs = (if vs = [] then None else Some (sum_list vs))"

definition sql_avg :: "rat list \<Rightarrow> rat option" where
  "sql_avg vs = (if vs = [] then None else Some (sum_list vs / of_nat (length vs)))"

definition sql_min :: "'a::linorder list \<Rightarrow> 'a option" where
  "sql_min vs = (case vs of [] \<Rightarrow> None | v # ws \<Rightarrow> Some (fold min ws v))"

definition sql_max :: "'a::linorder list \<Rightarrow> 'a option" where
  "sql_max vs = (case vs of [] \<Rightarrow> None | v # ws \<Rightarrow> Some (fold max ws v))"

definition coalesce :: "'a option \<Rightarrow> 'a \<Rightarrow> 'a" where
  "coalesce v d = (case v of None \<Rightarrow> d | Some x \<Rightarrow> x)"


definition order_by_desc :: "('r \<Rightarrow> rat) \<Rightarrow> 'r list \<Rightarrow> 'r list" where
  "order_by_desc key rows = sort_key (\<lambda>r. - key r) rows"


section \<open>GET /categories/stats and GET /analytics/category-stats\<close>

text \<open>
  The row of the statistics query. The handlers convert the four money columns with
  \<open>float\<close>; the model keeps the exact values the query computes and sorts by.
\<close>

record category_stats =
  cs_category_id :: int
  cs_category_name :: string
  cs_products_count :: nat
  cs_total_quantity :: int
  cs_avg_price :: rat
  cs_min_price :: rat
  cs_max_price :: rat
  cs_total_value :: rat

text \<open>
  The SELECT list over one group: \<open>ns\<close> are the nomenclature rows joined in the group
  (none when the category row was joined with NULLs; \<open>n.id\<close>, \<open>n.quantity\<close> and
  \<open>n.price\<close> are NOT NULL columns).
\<close>

definition stats_row :: "int \<times> string \<Rightarrow> nomenclature list \<Rightarrow> category_stats" where
  "stats_row k ns =
    \<lparr>cs_category_id = fst k,
     cs_category_name = snd k,
     cs_products_count = length ns,
     cs_total_quantity = coalesce (sql_sum (map n_quantity ns)) 0,
     cs_avg_price = coalesce (sql_avg (map n_price ns)) 0,
     cs_min_price = coalesce (sql_min (map n_price ns)) 0,
     cs_max_price = coalesce (sql_max (map n_price ns)) 0,
     cs_total_value = coalesce (sql_sum (map (\<lambda>n. n_price n * of_int (n_quantity n)) ns)) 0\<rparr>"

text \<open>
  \<open>FROM app.categories c LEFT JOIN app.nomenclature n ON c.id = n.category_id AND
  n.is_active = TRUE WHERE c.is_active = TRUE GROUP BY c.id, c.name ORDER BY total_value
  DESC NULLS LAST\<close>. \<open>total_value\<close> is the COALESCEd output column, so it is never NULL.
\<close>

definition category_stats_query :: "category list \<Rightarrow> nomenclature list \<Rightarrow> category_stats list" where
  "category_stats_query cats noms =
    (let joined = left_join (\<lambda>c n. c_id c = n_category_id n \<and> is_true (n_is_active n)) cats noms;
         selected = filter (\<lambda>(c, n). is_true (c_is_active c)) joined;
         groups = group_by (\<lambda>(c, n). (c_id c, c_name c)) selected
     in order_by_desc cs_total_value
          (map (\<lambda>(k, g). stats_row k (List.map_filter snd g)) groups))"

text \<open>categories.py, get_category_stats: every column of the query.\<close>

definition get_category_stats :: "db \<Rightarrow> category_stats list" where
  "get_category_stats d = category_stats_query (categories d) (nomenclature d)"

text \<open>
  analytics.py, get_category_stats: the same query without the \<open>category_id\<close> column.
\<close>

record analytics_category_stats =
  as_category_name :: string
  as_products_count :: nat
  as_total_quantity :: int
  as_avg_price :: rat
  as_min_price :: rat
  as_max_price :: rat
  as_total_value :: rat

definition analytics_row :: "category_stats \<Rightarrow> analytics_category_stats" where
  "analytics_row r =
    \<lparr>as_category_name = cs_category_name r, as_products_count = cs_products_count r,
     as_total_quantity = cs_total_quantity r, as_avg_price = cs_avg_price r,
     as_min_price = cs_min_price r, as_max_price = cs_max_price r,
     as_total_value = cs_total_value r\<rparr>"

definition analytics_get_category_stats :: "db \<Rightarrow> analytics_category_stats list" where
  "analytics_get_category_stats d =
    map analytics_row (category_stats_query (categories d) (nomenclature d))"

text \<open>The active nomenclature rows of a category, and the aggregate with no product.\<close>

definition active_products :: "category \<Rightarrow> nomenclature list \<Rightarrow> nomenclature list" where
  "active_products c noms =
    filter (\<lambda>n. c_id c = n_category_id n \<and> is_true (n_is_active n)) noms"

definition zero_stats :: "category \<Rightarrow> category_stats" where
  "zero_stats c =
    \<lparr>cs_category_id = c_id c, cs_category_name = c_name c, cs_products_count = 0,
     cs_total_quantity = 0, cs_avg_price = 0, cs_min_price = 0, cs_max_price = 0,
     cs_total_value = 0\<rparr>"

section \<open>The recursive category query (categories.py and analytics.py)\<close>

text \<open>
  Both \<open>WITH RECURSIVE\<close> queries walk the categories table from the active rows with
  no parent to their active children. A row of the result has the columns of both:
  \<open>category_tree\<close> of categories.py selects \<open>id, name, parent_id, level, path, depth,
  full_path\<close>, \<open>category_hierarchy\<close> of analytics.py selects \<open>path_array\<close> instead of
  \<open>path\<close>. \<open>depth\<close> counts up from 0, so it is a natural number.
\<close>

record cte_row =
  r_id :: int
  r_name :: string
  r_parent_id :: "int option"
  r_level :: "int option"
  r_path :: "string option"
  r_depth :: nat
  r_full_path :: string
  r_path_array :: "int list"






section \<open>GET /categories/tree (categories.py, get_category_tree)\<close>


text \<open>
  The loop builds one dict per row and shares it: the same dict is a value of
  \<open>categories_dict\<close>, an element of \<open>root_categories\<close> or of its parent's \<open>children\<close>,
  and gets children appended later. So the dicts live in a store, a list in which the
  dict of the i-th row has reference i, and all three containers hold references.
\<close>

record category_data =
  cd_id :: int
  cd_name :: string
  cd_parent_id :: "int option"
  cd_level :: "int option"
  cd_path :: "string option"
  cd_children :: "nat list"

record tree_state =
  store :: "category_data list"
  categories_dict :: "int \<rightharpoonup> nat"
  root_categories :: "nat list"

definition tree_init :: tree_state where
  "tree_init = \<lparr>store = [], categories_dict = Map.empty, root_categories = []\<rparr>"

text \<open>\<open>categories_dict[row.parent_id]["children"].append(category_data)\<close>\<close>

definition append_child :: "nat \<Rightarrow> nat \<Rightarrow> category_data list \<Rightarrow> category_data list" where
  "append_child parent_ref ref h =
    h[parent_ref := (h ! parent_ref)\<lparr>cd_children := cd_children (h ! parent_ref) @ [ref]\<rparr>]"

text \<open>
  One round of the loop. The row's dict is entered into \<open>categories_dict\<close> before its
  parent is looked up, so a row that is its own parent finds itself. A row whose parent
  is not in \<open>categories_dict\<close> is appended nowhere: the inner \<open>if\<close> has no \<open>else\<close>.
\<close>

definition tree_step :: "tree_state \<Rightarrow> cte_row \<Rightarrow> tree_state" where
  "tree_step st row =
    (let ref = length (store st);
         category_data =
           \<lparr>cd_id = r_id row, cd_name = r_name row, cd_parent_id = r_parent_id row,
            cd_level = r_level row, cd_path = r_path row, cd_children = []\<rparr>;
         st1 = st\<lparr>store := store st @ [category_data],
                  categories_dict := (categories_dict st)(r_id row \<mapsto> ref)\<rparr>
     in case r_parent_id row of
          None \<Rightarrow> st1\<lparr>root_categories := root_categories st1 @ [ref]\<rparr>
        | Some parent_id \<Rightarrow>
            (case categories_dict st1 parent_id of
               None \<Rightarrow> st1
             | Some parent_ref \<Rightarrow> st1\<lparr>store := append_child parent_ref ref (store st1)\<rparr>))"

definition build_tree :: "cte_row list \<Rightarrow> tree_state" where
  "build_tree rows = foldl tree_step tree_init rows"

text \<open>
  The handler returns \<open>root_categories\<close>; what the caller gets is the forest of nested
  dicts under these references. A node keeps the reference of its dict, which is the
  position of its row in the input. Following the references of a store that has a
  cycle below a root would not end; \<open>unfold_tree\<close> spends one unit of fuel per level
  and gives \<open>None\<close> when it runs out.
\<close>

datatype category_tree =
  CategoryTree (t_ref: nat) (t_id: int) (t_name: string) (t_parent_id: "int option")
    (t_level: "int option") (t_path: "string option") (t_children: "category_tree list")

fun unfold_tree :: "nat \<Rightarrow> category_data list \<Rightarrow> nat \<Rightarrow> category_tree option" where
  "unfold_tree 0 h ref = None"
| "unfold_tree (Suc fuel) h ref =
    (if ref < length h
     then map_option
            (CategoryTree ref (cd_id (h ! ref)) (cd_name (h ! ref)) (cd_parent_id (h ! ref))
               (cd_level (h ! ref)) (cd_path (h ! ref)))
            (those (map (unfold_tree fuel h) (cd_children (h ! ref))))
     else None)"

definition forest_of :: "tree_state \<Rightarrow> category_tree list option" where
  "forest_of st = those (map (unfold_tree (length (store st)) (store st)) (root_categories st))"

text \<open>BuildTree: the loop and the forest it returns.\<close>

definition BuildTree :: "cte_row list \<Rightarrow> category_tree list option" where
  "BuildTree rows = forest_of (build_tree rows)"


text \<open>The nodes of a tree and of a forest, each node before its children.\<close>

fun tree_nodes :: "category_tree \<Rightarrow> category_tree list" where
  "tree_nodes (CategoryTree ref i nm p l pth ts) =
    CategoryTree ref i nm p l pth ts # concat (map tree_nodes ts)"

definition forest_nodes :: "category_tree list \<Rightarrow> category_tree list" where
  "forest_nodes ts = concat (map tree_nodes ts)"

section \<open>GET /categories/hierarchy (categories.py, get_category_hierarchy)\<close>







section \<open>GET /analytics/category-children (analytics.py, get_category_children_count)\<close>










section \<open>Notions used in the proofs about the recursive query\<close>


section \<open>Notions used in the statements and proofs about the tree\<close>

text \<open>The five values a dict takes from its row, for a row and for a node of a forest.\<close>

definition row_fields :: "cte_row \<Rightarrow> int \<times> string \<times> int option \<times> int option \<times> string option" where
  "row_fields r = (r_id r, r_name r, r_parent_id r, r_level r, r_path r)"

definition node_fields :: "category_tree \<Rightarrow> int \<times> string \<times> int option \<times> int option \<times> string option" where
  "node_fields t = (t_id t, t_name t, t_parent_id t, t_level t, t_path t)"

text \<open>A node shows the row at the position its reference names.\<close>

definition shows_row :: "cte_row list \<Rightarrow> category_tree \<Rightarrow> bool" where
  "shows_row rows t = (t_ref t < length rows \<and> node_fields t = row_fields (rows ! t_ref t))"

text \<open>
  What holds of every node of a forest that BuildTree returns: it shows its row, its
  children stand in the order of the input, each of them after the node itself, and
  each names the node's id as its parent.
\<close>

definition node_ok :: "cte_row list \<Rightarrow> category_tree \<Rightarrow> bool" where
  "node_ok rows t =
    (shows_row rows t \<and> sorted_wrt (<) (map t_ref (t_children t)) \<and>
     (\<forall>c \<in> set (t_children t). t_ref t < t_ref c \<and> t_parent_id c = Some (t_id t)))"

text \<open>
  The input in which ids are distinct and every row comes after the row its parent_id
  names.
\<close>

definition parents_first :: "cte_row list \<Rightarrow> bool" where
  "parents_first rows =
    (distinct (map r_id rows) \<and>
     (\<forall>i \<in> set [0..<length rows].
        case r_parent_id (rows ! i) of
          None \<Rightarrow> True
        | Some p \<Rightarrow> p \<in> r_id ` set (take i rows)))"

text \<open>The node of a row that has no children (yet).\<close>

definition leaf_of :: "nat \<Rightarrow> cte_row \<Rightarrow> category_tree" where
  "leaf_of ref row =
    CategoryTree ref (r_id row) (r_name row) (r_parent_id row) (r_level row) (r_path row) []"

text \<open>
  What one round of the loop does to a tree of the forest: the new leaf is appended to
  the children of every node whose reference is that of the parent.
\<close>

fun insert_leaf :: "nat \<Rightarrow> category_tree \<Rightarrow> category_tree \<Rightarrow> category_tree" where
  "insert_leaf parent_ref leaf (CategoryTree ref i nm p l pth ts) =
    CategoryTree ref i nm p l pth
      (map (insert_leaf parent_ref leaf) ts @ (if ref = parent_ref then [leaf] else []))"

text \<open>
  The reference whose dict gets the dict of the row appended in one round of the loop;
  the reference of the new dict itself when no other dict gets it.
\<close>

definition attach_ref :: "tree_state \<Rightarrow> cte_row \<Rightarrow> nat" where
  "attach_ref st row =
    (case r_parent_id row of
       None \<Rightarrow> length (store st)
     | Some parent_id \<Rightarrow>
         (case ((categories_dict st)(r_id row \<mapsto> length (store st))) parent_id of
            None \<Rightarrow> length (store st)
          | Some parent_ref \<Rightarrow> parent_ref))"

text \<open>The invariant of the loop, for the rows read so far and the forest under the roots.\<close>

definition tree_inv :: "cte_row list \<Rightarrow> tree_state \<Rightarrow> category_tree list \<Rightarrow> bool" where
  "tree_inv rows st forest =
    (length (store st) = length rows \<and>
     (\<forall>a < length rows. \<forall>c \<in> set (cd_children (store st ! a)). c < length rows) \<and>
     (\<forall>k a. categories_dict st k = Some a \<longrightarrow> a < length rows \<and> r_id (rows ! a) = k) \<and>
     (\<forall>r \<in> set rows. categories_dict st (r_id r) \<noteq> None) \<and>
     root_categories st = filter (\<lambda>i. r_parent_id (rows ! i) = None) [0..<length rows] \<and>
     forest_of st = Some forest \<and>
     map t_ref forest = root_categories st \<and>
     (\<forall>u \<in> set (forest_nodes forest). node_ok rows u) \<and>
     distinct (map t_ref (forest_nodes forest)) \<and>
     (parents_first rows \<longrightarrow> set (map t_ref (forest_nodes forest)) = {..<length rows}))"

section \<open>POST /orders and DELETE /orders/{id} (orders.py)\<close>








text \<open>
  \<open>UPDATE app.nomenclature SET quantity = quantity - :quantity, updated_by = :updated_by
  WHERE id = :nomenclature_id\<close>, and the same with \<open>+\<close> in delete_order.
\<close>

definition take_from_stock :: "int \<Rightarrow> int \<Rightarrow> nomenclature list \<Rightarrow> nomenclature list" where
  "take_from_stock nomenclature_id quantity noms =
    map (\<lambda>n. if n_id n = nomenclature_id
              then n\<lparr>n_quantity := n_quantity n - quantity, n_updated_by := Some ''api_user''\<rparr>
              else n) noms"

definition return_to_stock :: "int \<Rightarrow> int \<Rightarrow> nomenclature list \<Rightarrow> nomenclature list" where
  "return_to_stock nomenclature_id quantity noms =
    map (\<lambda>n. if n_id n = nomenclature_id
              then n\<lparr>n_quantity := n_quantity n + quantity, n_updated_by := Some ''api_user''\<rparr>
              else n) noms"








section \<open>Test data (tests/conftest.py)\<close>

text \<open>
  The fixtures \<open>sample_categories\<close> and \<open>sample_nomenclature\<close>, with the category
  names transliterated. The fixtures insert no \<open>path\<close>, \<open>level\<close> or \<open>is_active\<close>; the rows
  here have the values the tests expect of the database: no path, \<open>level = 0\<close> and
  \<open>is_active = TRUE\<close>.
\<close>

definition mk_category :: "int \<Rightarrow> string \<Rightarrow> int option \<Rightarrow> category" where
  "mk_category i nm p =
    \<lparr>c_id = i, c_name = nm, c_parent_id = p, c_path = None, c_level = Some 0,
     c_is_active = Some True\<rparr>"

definition sample_categories :: "category list" where
  "sample_categories =
    [mk_category 1 ''Bytovaya tekhnika'' None,
     mk_category 2 ''Kompyutery'' None,
     mk_category 3 ''Stiralnye mashiny'' (Some 1),
     mk_category 4 ''Kholodilniki'' (Some 1),
     mk_category 5 ''Noutbuki'' (Some 2)]"

definition mk_nomenclature :: "int \<Rightarrow> string \<Rightarrow> int \<Rightarrow> rat \<Rightarrow> int \<Rightarrow> nomenclature" where
  "mk_nomenclature i nm q p c =
    \<lparr>n_id = i, n_name = nm, n_quantity = q, n_price = p, n_category_id = c,
     n_is_active = Some True, n_updated_by = None\<rparr>"

definition sample_nomenclature :: "nomenclature list" where
  "sample_nomenclature =
    [mk_nomenclature 1 ''Stiralnaya mashina Samsung'' 5 25000 3,
     mk_nomenclature 2 ''Kholodilnik Bosch'' 3 35000 4,
     mk_nomenclature 3 ''Noutbuk ASUS'' 2 45000 5]"







text \<open>
  Rows for BuildTree. The loop reads \<open>id, name, parent_id, level, path\<close> of a row and
  no other column.
\<close>

definition mk_row :: "int \<Rightarrow> string \<Rightarrow> int option \<Rightarrow> cte_row" where
  "mk_row i nm p =
    \<lparr>r_id = i, r_name = nm, r_parent_id = p, r_level = Some 0, r_path = None, r_depth = 0,
     r_full_path = nm, r_path_array = [i]\<rparr>"




text \<open>A child that is read before its parent.\<close>

definition child_first_rows :: "cte_row list" where
  "child_first_rows = [mk_row 3 ''Kid'' (Some 1), mk_row 1 ''Root'' None]"

text \<open>The rows of the test categories, roots first.\<close>

definition sample_rows :: "cte_row list" where
  "sample_rows =
    [mk_row 1 ''Bytovaya tekhnika'' None,
     mk_row 2 ''Kompyutery'' None,
     mk_row 3 ''Stiralnye mashiny'' (Some 1),
     mk_row 4 ''Kholodilniki'' (Some 1),
     mk_row 5 ''Noutbuki'' (Some 2)]"







text \<open>The database of \<open>test_get_category_stats\<close>: categories and products.\<close>

definition stats_db :: db where
  "stats_db =
    \<lparr>categories = sample_categories, nomenclature = sample_nomenclature, clients = [],
     orders = [], order_items = [], orders_id_seq = 0\<rparr>"


definition categories_db :: db where
  "categories_db =
    \<lparr>categories = sample_categories, nomenclature = [], clients = [], orders = [],
     order_items = [], orders_id_seq = 0\<rparr>"

section \<open>Proofs: delete_category\<close>

lemma find_None_conv: "(find P xs = None) = (\<forall>x \<in> set xs. \<not> P x)"
  by (auto simp: find_None_iff)

text \<open>
  C9. A category that some category row names as its parent, or some nomenclature row
  names as its category, is not deleted: the handler fails and the database is the one
  it was given. The handler succeeds exactly when the category exists and nothing
  references it, and then the database differs only in that the rows with this id are
  gone from the categories table; in every other case the database is unchanged.
\<close>

theorem delete_category_guard:
  "((\<exists>c \<in> set (categories d). c_parent_id c = Some cid) \<or>
    (\<exists>n \<in> set (nomenclature d). n_category_id n = cid)
      \<longrightarrow> (\<exists>e. delete_category cid d = (Inl e, d)))
   \<and> ((fst (delete_category cid d) = Inr ()) =
        ((\<exists>c \<in> set (categories d). c_id c = cid)
         \<and> \<not> (\<exists>c \<in> set (categories d). c_parent_id c = Some cid)
         \<and> \<not> (\<exists>n \<in> set (nomenclature d). n_category_id n = cid)))
   \<and> snd (delete_category cid d) =
        (if fst (delete_category cid d) = Inr ()
         then d\<lparr>categories := filter (\<lambda>c. c_id c \<noteq> cid) (categories d)\<rparr>
         else d)"
  by (auto simp: delete_category_def Let_def find_None_conv filter_empty_conv)

text \<open>
  On the test database: category 1 has two children and stays; category 5 is a leaf
  with no products and goes (\<open>test_delete_category_with_children\<close>,
  \<open>test_delete_category\<close>).
\<close>

theorem delete_category_guard_witness:
  "delete_category 1 categories_db = (Inl (HTTPException 400 Category_has_children), categories_db)
   \<and> delete_category 5 categories_db =
       (Inr (), categories_db\<lparr>categories := take 4 sample_categories\<rparr>)"
  using delete_category_guard [of categories_db 1] delete_category_guard [of categories_db 5]
  by (simp add: delete_category_def categories_db_def sample_categories_def mk_category_def)

section \<open>Proofs: create_order and delete_order\<close>

lemma take_from_stock_view:
  "map (\<lambda>n. (n_id n, n_quantity n)) (take_from_stock nid q noms) =
   map (\<lambda>n. (n_id n, n_quantity n - (if n_id n = nid then q else 0))) noms"
  by (simp add: take_from_stock_def)

lemma return_to_stock_view:
  "map (\<lambda>n. (n_id n, n_quantity n)) (return_to_stock nid q noms) =
   map (\<lambda>n. (n_id n, n_quantity n + (if n_id n = nid then q else 0))) noms"
  by (simp add: return_to_stock_def)











section \<open>Proofs: the statistics query\<close>

lemma left_join_Cons:
  "left_join on (x # xs) ys =
   (case filter (on x) ys of [] \<Rightarrow> [(x, None)] | m # ms \<Rightarrow> map (\<lambda>y. (x, Some y)) (m # ms))
   @ left_join on xs ys"
  by (simp add: left_join_def)

lemma left_join_Nil: "left_join on [] ys = []"
  by (simp add: left_join_def)

lemma left_join_filter:
  "filter (\<lambda>(x, y). P x) (left_join on xs ys) = left_join on (filter P xs) ys"
  by (induction xs) (auto simp: left_join_Cons left_join_Nil split: list.splits)

lemma remdups_block:
  "xs \<noteq> [] \<Longrightarrow> \<forall>x \<in> set xs. x = a \<Longrightarrow> a \<notin> set ys \<Longrightarrow> remdups (xs @ ys) = a # remdups ys"
proof (induction xs)
  case Nil
  then show ?case by simp
next
  case (Cons x xs)
  show ?case
  proof (cases "xs = []")
    case True
    with Cons.prems show ?thesis by simp
  next
    case False
    then obtain y zs where "xs = y # zs" by (cases xs) auto
    with Cons.prems have a: "a \<in> set xs" "x = a" by auto
    from Cons.prems False have "remdups (xs @ ys) = a # remdups ys"
      by (intro Cons.IH) auto
    with a show ?thesis by simp
  qed
qed

lemma left_join_keys:
  "(\<lambda>(x, y). k x) ` set (left_join on xs ys) = k ` set xs"
  by (induction xs) (auto simp: left_join_Cons left_join_Nil split: list.splits)

lemma group_by_left_join:
  "distinct (map k xs) \<Longrightarrow>
   group_by (\<lambda>(x, y). k x) (left_join on xs ys) =
   map (\<lambda>x. (k x, left_join on [x] ys)) xs"
proof (induction xs)
  case Nil
  then show ?case by (simp add: group_by_def left_join_Nil)
next
  case (Cons x xs)
  let ?key = "\<lambda>(x, y). k x"
  let ?b = "left_join on [x] ys"
  let ?rest = "left_join on xs ys"
  have split: "left_join on (x # xs) ys = ?b @ ?rest"
    by (simp add: left_join_def)
  have b_ne: "map ?key ?b \<noteq> []" and b_keys: "\<forall>r \<in> set (map ?key ?b). r = k x"
    by (auto simp: left_join_def split: list.splits)
  have fresh: "k x \<notin> set (map ?key ?rest)"
    using Cons.prems left_join_keys [of k on xs ys] by simp
  then have fresh': "\<forall>r \<in> set ?rest. ?key r \<noteq> k x"
    by force
  have keys: "remdups (map ?key (?b @ ?rest)) = k x # remdups (map ?key ?rest)"
    using remdups_block [OF b_ne b_keys fresh] by simp
  have own: "filter (\<lambda>r. ?key r = k x) (?b @ ?rest) = ?b"
  proof -
    have "filter (\<lambda>r. ?key r = k x) ?b = ?b"
      using b_keys by (auto simp: filter_id_conv)
    moreover have "filter (\<lambda>r. ?key r = k x) ?rest = []"
      using fresh' by (simp add: filter_empty_conv)
    ultimately show ?thesis by simp
  qed
  have others: "filter (\<lambda>r. ?key r = k') ?b = []" if "k' \<in> ?key ` set ?rest" for k'
  proof -
    from that fresh' have "k' \<noteq> k x" by auto
    then show ?thesis
      using b_keys by (auto simp: filter_empty_conv)
  qed
  have "group_by ?key (left_join on (x # xs) ys) =
      (k x, ?b) # map (\<lambda>k'. (k', filter (\<lambda>r. ?key r = k') (?b @ ?rest))) (remdups (map ?key ?rest))"
    by (simp only: group_by_def split keys list.map own)
  also have "map (\<lambda>k'. (k', filter (\<lambda>r. ?key r = k') (?b @ ?rest))) (remdups (map ?key ?rest)) =
      map (\<lambda>k'. (k', filter (\<lambda>r. ?key r = k') ?rest)) (remdups (map ?key ?rest))"
    by (rule map_cong) (simp_all add: others)
  also have "\<dots> = group_by ?key ?rest"
    by (simp add: group_by_def)
  also have "\<dots> = map (\<lambda>x. (k x, left_join on [x] ys)) xs"
    using Cons by simp
  finally show ?case by simp
qed

lemma matched_left_join: "List.map_filter snd (left_join on [x] ys) = filter (on x) ys"
  by (auto simp: left_join_def List.map_filter_def o_def split: list.splits)


lemma stats_keys_distinct:
  "distinct (map c_id cats) \<Longrightarrow> distinct (map (\<lambda>c. (c_id c, c_name c)) cats)"
  by (induction cats) auto

lemma category_stats_query_rows:
  assumes "distinct (map c_id cats)"
  shows "mset (category_stats_query cats noms) =
    mset (map (\<lambda>c. stats_row (c_id c, c_name c) (active_products c noms))
           (filter (\<lambda>c. is_true (c_is_active c)) cats))"
proof -
  let ?on = "\<lambda>c n. c_id c = n_category_id n \<and> is_true (n_is_active n)"
  let ?A = "filter (\<lambda>c. is_true (c_is_active c)) cats"
  have "distinct (map c_id ?A)"
    using assms by (simp add: distinct_map_filter)
  then have "distinct (map (\<lambda>c. (c_id c, c_name c)) ?A)"
    by (rule stats_keys_distinct)
  then have groups: "group_by (\<lambda>(c, n). (c_id c, c_name c)) (left_join ?on ?A noms) =
      map (\<lambda>c. ((c_id c, c_name c), left_join ?on [c] noms)) ?A"
    by (rule group_by_left_join)
  have "category_stats_query cats noms =
      order_by_desc cs_total_value
        (map (\<lambda>c. stats_row (c_id c, c_name c) (active_products c noms)) ?A)"
    by (simp add: category_stats_query_def left_join_filter groups o_def matched_left_join
        active_products_def)
  then show ?thesis
    by (simp add: order_by_desc_def)
qed

lemma stats_row_zero: "stats_row (c_id c, c_name c) [] = zero_stats c"
  by (simp add: stats_row_def zero_stats_def coalesce_def sql_sum_def sql_avg_def sql_min_def
      sql_max_def)

text \<open>
  C6. When the ids of the categories table are distinct (\<open>id\<close> is its primary key), the
  statistics query returns one row for every active category and no other row: the
  category ids of its rows are those of the active categories, each once. An active
  category with no active nomenclature row is in the result with the zero aggregate:
  no products, quantity 0, average, least and greatest price 0, total value 0.
\<close>

theorem category_stats_complete:
  assumes "distinct (map c_id (categories d))"
  shows "mset (map cs_category_id (get_category_stats d)) =
      mset (map c_id (filter (\<lambda>c. is_true (c_is_active c)) (categories d)))
    \<and> distinct (map cs_category_id (get_category_stats d))
    \<and> (\<forall>c \<in> set (categories d).
          is_true (c_is_active c) \<and> active_products c (nomenclature d) = []
          \<longrightarrow> zero_stats c \<in> set (get_category_stats d))"
proof -
  let ?A = "filter (\<lambda>c. is_true (c_is_active c)) (categories d)"
  let ?row = "\<lambda>c. stats_row (c_id c, c_name c) (active_products c (nomenclature d))"
  have rows: "mset (get_category_stats d) = mset (map ?row ?A)"
    unfolding get_category_stats_def by (rule category_stats_query_rows [OF assms])
  have id_row: "cs_category_id (?row c) = c_id c" for c
    by (simp add: stats_row_def)
  have ids: "mset (map cs_category_id (get_category_stats d)) = mset (map c_id ?A)"
  proof -
    have "mset (map cs_category_id (get_category_stats d)) =
        image_mset cs_category_id (mset (get_category_stats d))"
      by simp
    also have "\<dots> = image_mset cs_category_id (mset (map ?row ?A))"
      by (simp only: rows)
    also have "\<dots> = mset (map c_id ?A)"
      by (simp add: multiset.map_comp o_def id_row)
    finally show ?thesis .
  qed
  have "distinct (map c_id ?A)"
    using assms by (simp add: distinct_map_filter)
  then have dist: "distinct (map cs_category_id (get_category_stats d))"
    using ids by (metis distinct_count_atmost_1 mset_eq_setD set_mset_mset)
  have zero: "zero_stats c \<in> set (get_category_stats d)"
    if "c \<in> set (categories d)" "is_true (c_is_active c)"
      "active_products c (nomenclature d) = []" for c
  proof -
    from that have "c \<in> set ?A" by simp
    then have "?row c \<in> set (map ?row ?A)" by (simp only: set_map) (rule imageI)
    then have "?row c \<in> set (get_category_stats d)"
      using rows by (metis mset_eq_setD)
    with that show ?thesis by (simp add: stats_row_zero)
  qed
  from ids dist zero show ?thesis by blast
qed

lemma desc_sorted:
  "sorted_wrt (\<lambda>a b. key a \<ge> key b) (order_by_desc key rows)"
proof -
  have "sorted (map (\<lambda>r. - key r) (sort_key (\<lambda>r. - key r) rows))"
    by (rule sorted_sort_key)
  then show ?thesis
    by (simp add: order_by_desc_def sorted_map)
qed

lemma desc_zero_last:
  assumes "sorted_wrt (\<lambda>a b. key a \<ge> key b) rows"
    and "i < length rows" "j < length rows"
    and "key (rows ! i) = (0::rat)" "key (rows ! j) > 0"
  shows "j < i"
proof (rule ccontr)
  assume "\<not> j < i"
  moreover from assms have "i \<noteq> j" by auto
  ultimately have "i < j" by simp
  from sorted_wrt_nth_less [OF assms(1) this assms(3)]
  have "key (rows ! i) \<ge> key (rows ! j)" .
  with assms show False by simp
qed

text \<open>
  C7. The rows of both statistics endpoints are in descending order of their total
  value, and a row whose total value is 0 never stands before a row whose total value
  is positive.
\<close>

theorem category_stats_sorted:
  "sorted_wrt (\<lambda>a b. cs_total_value a \<ge> cs_total_value b) (get_category_stats d)
   \<and> sorted_wrt (\<lambda>a b. as_total_value a \<ge> as_total_value b) (analytics_get_category_stats d)
   \<and> (\<forall>i j. i < length (get_category_stats d) \<and> j < length (get_category_stats d)
          \<and> cs_total_value (get_category_stats d ! i) = 0
          \<and> cs_total_value (get_category_stats d ! j) > 0 \<longrightarrow> j < i)
   \<and> (\<forall>i j. i < length (analytics_get_category_stats d)
          \<and> j < length (analytics_get_category_stats d)
          \<and> as_total_value (analytics_get_category_stats d ! i) = 0
          \<and> as_total_value (analytics_get_category_stats d ! j) > 0 \<longrightarrow> j < i)"
proof -
  have s1: "sorted_wrt (\<lambda>a b. cs_total_value a \<ge> cs_total_value b) (get_category_stats d)"
    by (simp add: get_category_stats_def category_stats_query_def Let_def desc_sorted)
  have "sorted_wrt (\<lambda>a b. cs_total_value a \<ge> cs_total_value b)
      (category_stats_query (categories d) (nomenclature d))"
    using s1 by (simp add: get_category_stats_def)
  then have s2: "sorted_wrt (\<lambda>a b. as_total_value a \<ge> as_total_value b)
      (analytics_get_category_stats d)"
    by (simp add: analytics_get_category_stats_def sorted_wrt_map analytics_row_def)
  from s1 s2 desc_zero_last [OF s1] desc_zero_last [OF s2] show ?thesis
    by blast
qed

lemma stats_eval:
  "get_category_stats stats_db =
    [stats_row (3, ''Stiralnye mashiny'') [sample_nomenclature ! 0],
     stats_row (4, ''Kholodilniki'') [sample_nomenclature ! 1],
     stats_row (5, ''Noutbuki'') [sample_nomenclature ! 2],
     zero_stats (sample_categories ! 0),
     zero_stats (sample_categories ! 1)]"
  by code_simp

lemma stats_values:
  "map cs_total_value (get_category_stats stats_db) = [125000, 105000, 90000, 0, 0]"
  by (simp add: stats_eval stats_row_def zero_stats_def sample_nomenclature_def
      mk_nomenclature_def coalesce_def sql_sum_def)

text \<open>
  On the test database: 125000, 105000, 90000, then the two zeros.
\<close>

theorem category_stats_sorted_witness:
  "map cs_total_value (get_category_stats stats_db) = [125000, 105000, 90000, 0, 0]
   \<and> map as_total_value (analytics_get_category_stats stats_db) = [125000, 105000, 90000, 0, 0]
   \<and> sorted_wrt (\<lambda>a b. cs_total_value a \<ge> cs_total_value b) (get_category_stats stats_db)"
proof -
  have a: "map as_total_value (analytics_get_category_stats stats_db) =
      map cs_total_value (get_category_stats stats_db)"
    by (simp add: analytics_get_category_stats_def get_category_stats_def analytics_row_def o_def)
  from category_stats_sorted [of stats_db] a stats_values show ?thesis
    by simp
qed

text \<open>
  On the test database the three categories with a product come first and the two
  root categories, which have none, follow with zero aggregates.
\<close>

theorem category_stats_complete_witness:
  "get_category_stats stats_db =
    [stats_row (3, ''Stiralnye mashiny'') [sample_nomenclature ! 0],
     stats_row (4, ''Kholodilniki'') [sample_nomenclature ! 1],
     stats_row (5, ''Noutbuki'') [sample_nomenclature ! 2],
     zero_stats (sample_categories ! 0),
     zero_stats (sample_categories ! 1)]
   \<and> mset (map cs_category_id (get_category_stats stats_db)) = mset [1, 2, 3, 4, 5]
   \<and> zero_stats (sample_categories ! 0) \<in> set (get_category_stats stats_db)"
proof -
  have dist: "distinct (map c_id (categories stats_db))"
    by (simp add: stats_db_def sample_categories_def mk_category_def)
  have active: "filter (\<lambda>c. is_true (c_is_active c)) (categories stats_db) = sample_categories"
    by (simp add: stats_db_def sample_categories_def mk_category_def is_true_def)
  have none: "active_products (sample_categories ! 0) (nomenclature stats_db) = []"
    by (simp add: stats_db_def sample_categories_def sample_nomenclature_def mk_category_def
        mk_nomenclature_def active_products_def)
  have mem: "sample_categories ! 0 \<in> set (categories stats_db)"
    by (simp add: stats_db_def sample_categories_def)
  have act: "is_true (c_is_active (sample_categories ! 0))"
    by (simp add: sample_categories_def mk_category_def is_true_def)
  from category_stats_complete [OF dist] mem act none
  have "mset (map cs_category_id (get_category_stats stats_db)) = mset (map c_id sample_categories)"
    and "zero_stats (sample_categories ! 0) \<in> set (get_category_stats stats_db)"
    by (auto simp: active)
  then show ?thesis
    by (simp add: stats_eval) (simp add: sample_categories_def mk_category_def)
qed

section \<open>Proofs: the recursive query returns\<close>

















section \<open>Proofs: the number of immediate children\<close>











section \<open>Proofs: the hierarchy labels\<close>










section \<open>Proofs: unfolding the store after one more round\<close>

lemma those_map_Some:
  "(those (map f xs) = Some ys) = list_all2 (\<lambda>x y. f x = Some y) xs ys"
proof (induction xs arbitrary: ys)
  case Nil
  then show ?case by auto
next
  case (Cons x xs)
  show ?case
  proof (cases "f x")
    case None
    then show ?thesis by (auto simp: list_all2_Cons1)
  next
    case (Some y)
    then show ?thesis
      using Cons.IH by (cases "those (map f xs)") (auto simp: list_all2_Cons1)
  qed
qed

lemma those_map_append:
  "those (map f xs) = Some ys \<Longrightarrow> those (map f zs) = Some ws \<Longrightarrow>
   those (map f (xs @ zs)) = Some (ys @ ws)"
  by (simp only: those_map_Some) (rule list_all2_appendI)

lemma unfold_tree_leaf:
  "ref < length h \<Longrightarrow> cd_children (h ! ref) = [] \<Longrightarrow>
   unfold_tree (Suc fuel) h ref =
     Some (CategoryTree ref (cd_id (h ! ref)) (cd_name (h ! ref)) (cd_parent_id (h ! ref))
       (cd_level (h ! ref)) (cd_path (h ! ref)) [])"
  by simp

lemma unfold_tree_step:
  assumes closed: "\<forall>a < length h. \<forall>c \<in> set (cd_children (h ! a)). c < length h"
    and len: "length h' = Suc (length h)"
    and old: "\<forall>a < length h. h' ! a =
        (h ! a)\<lparr>cd_children := cd_children (h ! a) @ (if a = pa then [length h] else [])\<rparr>"
    and new: "pa < length h \<longrightarrow> unfold_tree 1 h' (length h) = Some lf \<and>
        cd_children (h' ! length h) = []"
  shows "a < length h \<Longrightarrow> unfold_tree fuel h a = Some t \<Longrightarrow>
    unfold_tree (Suc fuel) h' a = Some (insert_leaf pa lf t)"
proof (induction fuel arbitrary: a t)
  case 0
  then show ?case by simp
next
  case (Suc fuel)
  let ?cs = "cd_children (h ! a)"
  from Suc.prems obtain ts where ts: "those (map (unfold_tree fuel h) ?cs) = Some ts"
    and t: "t = CategoryTree a (cd_id (h ! a)) (cd_name (h ! a)) (cd_parent_id (h ! a))
       (cd_level (h ! a)) (cd_path (h ! a)) ts"
    by auto
  from ts have all2: "list_all2 (\<lambda>c tc. unfold_tree fuel h c = Some tc) ?cs ts"
    by (simp add: those_map_Some)
  have "list_all2 (\<lambda>c tc. unfold_tree (Suc fuel) h' c = Some (insert_leaf pa lf tc)) ?cs ts"
    using all2
  proof (rule list.rel_mono_strong)
    show "unfold_tree (Suc fuel) h' c = Some (insert_leaf pa lf tc)"
      if "c \<in> set ?cs" "tc \<in> set ts" "unfold_tree fuel h c = Some tc" for c tc
    proof -
      from that closed Suc.prems have "c < length h" by auto
      from Suc.IH [OF this that(3)] show ?thesis .
    qed
  qed
  then have "list_all2 (\<lambda>c tc'. unfold_tree (Suc fuel) h' c = Some tc') ?cs
      (map (insert_leaf pa lf) ts)"
    by (simp add: list_all2_map2)
  then have old_kids: "those (map (unfold_tree (Suc fuel) h') ?cs) =
      Some (map (insert_leaf pa lf) ts)"
    by (simp add: those_map_Some)
  have new_kid: "those (map (unfold_tree (Suc fuel) h') [length h]) = Some [lf]" if "a = pa"
  proof -
    from that Suc.prems new have lf: "unfold_tree 1 h' (length h) = Some lf"
      and none: "cd_children (h' ! length h) = []" by auto
    from len have "length h < length h'" by simp
    with lf none have "unfold_tree (Suc fuel) h' (length h) = Some lf"
      by simp
    then show ?thesis by simp
  qed
  have kids: "those (map (unfold_tree (Suc fuel) h')
      (?cs @ (if a = pa then [length h] else []))) =
      Some (map (insert_leaf pa lf) ts @ (if a = pa then [lf] else []))"
  proof (cases "a = pa")
    case True
    with those_map_append [OF old_kids new_kid] show ?thesis by simp
  next
    case False
    with old_kids show ?thesis by simp
  qed
  from Suc.prems old have h'a: "h' ! a =
      (h ! a)\<lparr>cd_children := ?cs @ (if a = pa then [length h] else [])\<rparr>"
    by simp
  from Suc.prems len have "a < length h'" by simp
  then have step: "unfold_tree (Suc (Suc fuel)) h' a =
      map_option
        (CategoryTree a (cd_id (h' ! a)) (cd_name (h' ! a)) (cd_parent_id (h' ! a))
           (cd_level (h' ! a)) (cd_path (h' ! a)))
        (those (map (unfold_tree (Suc fuel) h') (cd_children (h' ! a))))"
    by (simp only: unfold_tree.simps(2) [of "Suc fuel"] if_True)
  have fields: "cd_id (h' ! a) = cd_id (h ! a)" "cd_name (h' ! a) = cd_name (h ! a)"
    "cd_parent_id (h' ! a) = cd_parent_id (h ! a)" "cd_level (h' ! a) = cd_level (h ! a)"
    "cd_path (h' ! a) = cd_path (h ! a)"
    "cd_children (h' ! a) = ?cs @ (if a = pa then [length h] else [])"
    by (simp_all add: h'a)
  show ?case
    unfolding step fields kids t by simp
qed

section \<open>Proofs: a leaf added to a forest\<close>

lemma insert_leaf_ref [simp]: "t_ref (insert_leaf pa lf t) = t_ref t"
  by (cases t) simp

lemma insert_leaf_fields [simp]: "node_fields (insert_leaf pa lf t) = node_fields t"
  by (cases t) (simp add: node_fields_def)

lemma insert_leaf_children:
  "t_children (insert_leaf pa lf t) =
   map (insert_leaf pa lf) (t_children t) @ (if t_ref t = pa then [lf] else [])"
  by (cases t) simp

lemma tree_nodes_unfold: "tree_nodes t = t # concat (map tree_nodes (t_children t))"
  by (cases t) simp

lemma tree_nodes_self: "t \<in> set (tree_nodes t)"
  by (cases t) simp

lemma tree_nodes_children: "c \<in> set (t_children t) \<Longrightarrow> set (tree_nodes c) \<subseteq> set (tree_nodes t)"
  by (cases t) auto

lemma tree_nodes_trans:
  "u \<in> set (tree_nodes t) \<Longrightarrow> c \<in> set (t_children u) \<Longrightarrow> c \<in> set (tree_nodes t)"
proof (induction t arbitrary: u)
  case (CategoryTree ref i nm p l pth ts)
  show ?case
  proof (cases "u = CategoryTree ref i nm p l pth ts")
    case True
    with CategoryTree.prems have "c \<in> set ts" by simp
    then have "c \<in> set (tree_nodes c)" "c \<in> set ts" by (simp_all add: tree_nodes_self)
    then show ?thesis by auto
  next
    case False
    with CategoryTree.prems obtain t where "t \<in> set ts" "u \<in> set (tree_nodes t)" by auto
    with CategoryTree.IH CategoryTree.prems have "c \<in> set (tree_nodes t)" by blast
    with \<open>t \<in> set ts\<close> show ?thesis by auto
  qed
qed

lemma tree_nodes_insert_leaf:
  assumes leaf: "t_children lf = []"
  shows "u' \<in> set (tree_nodes (insert_leaf pa lf t)) \<Longrightarrow>
    u' = lf \<or> (\<exists>u \<in> set (tree_nodes t). u' = insert_leaf pa lf u)"
proof (induction t)
  case (CategoryTree ref i nm p l pth ts)
  let ?t = "CategoryTree ref i nm p l pth ts"
  from CategoryTree.prems consider "u' = insert_leaf pa lf ?t"
    | t where "t \<in> set ts" "u' \<in> set (tree_nodes (insert_leaf pa lf t))"
    | "ref = pa" "u' \<in> set (tree_nodes lf)"
    by (auto split: if_splits)
  then show ?case
  proof cases
    case 1
    then show ?thesis by (auto simp: tree_nodes_self)
  next
    case 2
    with CategoryTree.IH show ?thesis by auto
  next
    case 3
    with leaf show ?thesis by (simp add: tree_nodes_unfold [of lf])
  qed
qed

lemma count_refs_node:
  "count_list (map t_ref (tree_nodes t)) x =
   (if x = t_ref t then 1 else 0) +
   sum_list (map (\<lambda>c. count_list (map t_ref (tree_nodes c)) x) (t_children t))"
  by (cases t) (simp add: map_concat count_list_concat o_def)

lemma count_refs_Node:
  "count_list (map t_ref (tree_nodes (CategoryTree ref i nm p l pth ts))) x =
   (if x = ref then 1 else 0) +
   sum_list (map (\<lambda>c. count_list (map t_ref (tree_nodes c)) x) ts)"
  by (simp add: map_concat count_list_concat o_def)

lemma count_refs_insert_leaf:
  assumes leaf: "t_children lf = []"
  shows "count_list (map t_ref (tree_nodes (insert_leaf pa lf t))) x =
    count_list (map t_ref (tree_nodes t)) x +
    (if x = t_ref lf then count_list (map t_ref (tree_nodes t)) pa else 0)"
proof (induction t)
  case (CategoryTree ref i nm p l pth ts)
  let ?cnt = "\<lambda>y c. count_list (map t_ref (tree_nodes c)) y"
  have lf: "?cnt x lf = (if x = t_ref lf then 1 else 0)"
    using leaf by (simp add: count_refs_node [of lf])
  have "sum_list (map (\<lambda>c. ?cnt x (insert_leaf pa lf c)) ts) =
      sum_list (map (\<lambda>c. ?cnt x c + (if x = t_ref lf then ?cnt pa c else 0)) ts)"
    by (rule arg_cong [where f = sum_list], rule map_cong) (simp_all add: CategoryTree.IH)
  also have "\<dots> = sum_list (map (?cnt x) ts) +
      (if x = t_ref lf then sum_list (map (?cnt pa) ts) else 0)"
    by (simp add: sum_list_addf)
  finally have kids: "sum_list (map (\<lambda>c. ?cnt x (insert_leaf pa lf c)) ts) =
      sum_list (map (?cnt x) ts) + (if x = t_ref lf then sum_list (map (?cnt pa) ts) else 0)" .
  have "?cnt x (insert_leaf pa lf (CategoryTree ref i nm p l pth ts)) =
      (if x = ref then 1 else 0) +
      (sum_list (map (\<lambda>c. ?cnt x (insert_leaf pa lf c)) ts) +
       (if ref = pa then ?cnt x lf else 0))"
    by (simp only: insert_leaf.simps count_refs_Node) (simp add: o_def)
  also have "\<dots> = ?cnt x (CategoryTree ref i nm p l pth ts) +
      (if x = t_ref lf then ?cnt pa (CategoryTree ref i nm p l pth ts) else 0)"
    by (simp only: kids lf count_refs_Node) simp
  finally show ?case .
qed

lemma count_refs_forest:
  "count_list (map t_ref (forest_nodes ts)) x =
   sum_list (map (\<lambda>c. count_list (map t_ref (tree_nodes c)) x) ts)"
  by (simp add: forest_nodes_def map_concat count_list_concat o_def)

lemma count_refs_forest_insert:
  assumes leaf: "t_children lf = []"
  shows "count_list (map t_ref (forest_nodes (map (insert_leaf pa lf) ts @ extra))) x =
    count_list (map t_ref (forest_nodes ts)) x +
    (if x = t_ref lf then count_list (map t_ref (forest_nodes ts)) pa else 0) +
    count_list (map t_ref (forest_nodes extra)) x"
proof -
  let ?cnt = "\<lambda>y c. count_list (map t_ref (tree_nodes c)) y"
  have "sum_list (map (\<lambda>c. ?cnt x (insert_leaf pa lf c)) ts) =
      sum_list (map (\<lambda>c. ?cnt x c + (if x = t_ref lf then ?cnt pa c else 0)) ts)"
    by (simp add: count_refs_insert_leaf [OF leaf])
  also have "\<dots> = sum_list (map (?cnt x) ts) +
      (if x = t_ref lf then sum_list (map (?cnt pa) ts) else 0)"
    by (simp add: sum_list_addf)
  finally show ?thesis
    by (simp add: count_refs_forest o_def)
qed

lemma distinct_count_list:
  "distinct xs = (\<forall>x. count_list xs x \<le> 1)"
proof (induction xs)
  case Nil
  then show ?case by simp
next
  case (Cons a xs)
  show ?case
  proof
    assume d: "distinct (a # xs)"
    then have "count_list xs a = 0" by (simp add: count_list_0_iff)
    with d Cons show "\<forall>x. count_list (a # xs) x \<le> 1" by auto
  next
    assume c: "\<forall>x. count_list (a # xs) x \<le> 1"
    then have "count_list (a # xs) a \<le> 1" by blast
    then have "a \<notin> set xs" by (simp add: count_list_0_iff)
    moreover have "\<forall>x. count_list xs x \<le> 1"
    proof
      fix x from c have "count_list (a # xs) x \<le> 1" by blast
      then show "count_list xs x \<le> 1" by (simp split: if_splits)
    qed
    ultimately show "distinct (a # xs)" using Cons by simp
  qed
qed

section \<open>Proofs: the invariant of the tree loop\<close>

lemma attach_ref_le:
  assumes "\<forall>k a. categories_dict st k = Some a \<longrightarrow> a < length (store st)"
  shows "attach_ref st r \<le> length (store st)"
  using assms by (auto simp: attach_ref_def split: option.splits if_splits dest: less_imp_le)

lemma tree_step_length: "length (store (tree_step st r)) = Suc (length (store st))"
  by (simp add: tree_step_def Let_def append_child_def split: option.splits)

lemma tree_step_dict:
  "categories_dict (tree_step st r) = (categories_dict st)(r_id r \<mapsto> length (store st))"
  by (simp add: tree_step_def Let_def split: option.splits)

lemma tree_step_roots:
  "root_categories (tree_step st r) =
   root_categories st @ (if r_parent_id r = None then [length (store st)] else [])"
  by (simp add: tree_step_def Let_def split: option.splits)

lemma tree_step_old:
  assumes "a < length (store st)"
  shows "store (tree_step st r) ! a =
    (store st ! a)\<lparr>cd_children := cd_children (store st ! a) @
      (if a = attach_ref st r then [length (store st)] else [])\<rparr>"
  using assms
  by (auto simp: tree_step_def Let_def append_child_def attach_ref_def nth_append
      nth_list_update split: option.splits if_splits)

lemma tree_step_new:
  assumes "attach_ref st r \<noteq> length (store st) \<or> r_parent_id r = None"
  shows "store (tree_step st r) ! length (store st) =
    \<lparr>cd_id = r_id r, cd_name = r_name r, cd_parent_id = r_parent_id r,
     cd_level = r_level r, cd_path = r_path r, cd_children = []\<rparr>"
  using assms
  by (auto simp: tree_step_def Let_def append_child_def attach_ref_def nth_append
      nth_list_update split: option.splits if_splits)

lemma tree_step_new_children:
  assumes "\<forall>k a. categories_dict st k = Some a \<longrightarrow> a < length (store st)"
  shows "set (cd_children (store (tree_step st r) ! length (store st))) \<subseteq> {length (store st)}"
proof (cases "r_parent_id r")
  case None
  then show ?thesis by (simp add: tree_step_def Let_def)
next
  case (Some p)
  show ?thesis
  proof (cases "((categories_dict st)(r_id r \<mapsto> length (store st))) p")
    case None
    with Some show ?thesis by (simp add: tree_step_def Let_def)
  next
    case found: (Some pa)
    with assms have "pa \<le> length (store st)"
      by (auto split: if_splits dest: less_imp_le)
    then consider "pa = length (store st)" | "pa < length (store st)" by linarith
    then show ?thesis
    proof cases
      case 1
      with Some found show ?thesis
        by (simp add: tree_step_def Let_def append_child_def)
    next
      case 2
      with Some found show ?thesis
        by (simp add: tree_step_def Let_def append_child_def nth_append)
    qed
  qed
qed

lemma attach_ref_parent:
  assumes "\<forall>k a. categories_dict st k = Some a \<longrightarrow> a < length rows \<and> r_id (rows ! a) = k"
    and "length (store st) = length rows"
    and "attach_ref st r < length rows"
  shows "r_parent_id r = Some (r_id (rows ! attach_ref st r))"
  using assms
  by (auto simp: attach_ref_def split: option.splits if_splits)

lemma attach_ref_found:
  assumes "r_parent_id r = Some p" "p \<noteq> r_id r" "categories_dict st p = Some a"
  shows "attach_ref st r = a"
  using assms by (simp add: attach_ref_def)

lemma attach_ref_root: "r_parent_id r = None \<Longrightarrow> attach_ref st r = length (store st)"
  by (simp add: attach_ref_def)


lemma forest_of_step:
  assumes len: "length (store st) = n"
    and closed: "\<forall>a < n. \<forall>c \<in> set (cd_children (store st ! a)). c < n"
    and dict: "\<forall>k a. categories_dict st k = Some a \<longrightarrow> a < n"
    and roots: "\<forall>a \<in> set (root_categories st). a < n"
    and forest: "forest_of st = Some forest"
  shows "forest_of (tree_step st r) =
    Some (map (insert_leaf (attach_ref st r) (leaf_of n r)) forest @
      (if r_parent_id r = None then [leaf_of n r] else []))"
proof -
  let ?h = "store st" and ?h' = "store (tree_step st r)"
  let ?pa = "attach_ref st r" and ?lf = "leaf_of n r"
  have len': "length ?h' = Suc (length ?h)" by (rule tree_step_length)
  have leaf: "unfold_tree (Suc fuel) ?h' n = Some ?lf \<and> cd_children (?h' ! n) = []"
    if "?pa \<noteq> n \<or> r_parent_id r = None" for fuel
  proof -
    from that len have new: "?h' ! n =
        \<lparr>cd_id = r_id r, cd_name = r_name r, cd_parent_id = r_parent_id r,
         cd_level = r_level r, cd_path = r_path r, cd_children = []\<rparr>"
      using tree_step_new [of st r] by simp
    from len len' have "n < length ?h'" by simp
    with new show ?thesis by (simp add: leaf_of_def)
  qed
  have step: "unfold_tree (Suc fuel) ?h' a = Some (insert_leaf ?pa ?lf t)"
    if "a < length ?h" "unfold_tree fuel ?h a = Some t" for a fuel t
  proof (rule unfold_tree_step [where h = ?h and h' = ?h' and pa = ?pa and lf = ?lf, OF _ len' _ _ that])
    show "\<forall>a < length ?h. \<forall>c \<in> set (cd_children (?h ! a)). c < length ?h"
      using closed len by simp
    show "\<forall>a < length ?h. ?h' ! a =
        (?h ! a)\<lparr>cd_children := cd_children (?h ! a) @ (if a = ?pa then [length ?h] else [])\<rparr>"
      by (simp add: tree_step_old)
    show "?pa < length ?h \<longrightarrow> unfold_tree 1 ?h' (length ?h) = Some ?lf \<and>
        cd_children (?h' ! length ?h) = []"
      using leaf [of 0] len by auto
  qed
  from forest len have "list_all2 (\<lambda>a t. unfold_tree n ?h a = Some t) (root_categories st) forest"
    by (simp add: forest_of_def those_map_Some)
  then have "list_all2 (\<lambda>a t. unfold_tree (Suc n) ?h' a = Some (insert_leaf ?pa ?lf t))
      (root_categories st) forest"
  proof (rule list.rel_mono_strong)
    show "unfold_tree (Suc n) ?h' a = Some (insert_leaf ?pa ?lf t)"
      if "a \<in> set (root_categories st)" "t \<in> set forest" "unfold_tree n ?h a = Some t" for a t
      using that roots len by (intro step) auto
  qed
  then have "list_all2 (\<lambda>a t'. unfold_tree (Suc n) ?h' a = Some t')
      (root_categories st) (map (insert_leaf ?pa ?lf) forest)"
    by (simp add: list_all2_map2)
  then have old_roots: "those (map (unfold_tree (Suc n) ?h') (root_categories st)) =
      Some (map (insert_leaf ?pa ?lf) forest)"
    by (simp add: those_map_Some)
  have new_root: "those (map (unfold_tree (Suc n) ?h')
        (if r_parent_id r = None then [length (store st)] else [])) =
      Some (if r_parent_id r = None then [?lf] else [])"
    using leaf [of n] len by auto
  from those_map_append [OF old_roots new_root] show ?thesis
    by (simp only: forest_of_def tree_step_roots len' len)
qed


lemma insert_leaf_id [simp]: "t_id (insert_leaf pa lf t) = t_id t"
  by (cases t) simp

lemma insert_leaf_parent_id [simp]: "t_parent_id (insert_leaf pa lf t) = t_parent_id t"
  by (cases t) simp

lemma insert_leaf_path [simp]: "t_path (insert_leaf pa lf t) = t_path t"
  by (cases t) simp

lemma forest_nodes_trans:
  "u \<in> set (forest_nodes forest) \<Longrightarrow> c \<in> set (t_children u) \<Longrightarrow> c \<in> set (forest_nodes forest)"
  by (auto simp: forest_nodes_def dest: tree_nodes_trans)


lemma forest_nodes_insert_leaf:
  assumes leaf: "t_children lf = []" and extra: "set extra \<subseteq> {lf}"
    and mem: "u' \<in> set (forest_nodes (map (insert_leaf pa lf) forest @ extra))"
  shows "u' = lf \<or> (\<exists>u \<in> set (forest_nodes forest). u' = insert_leaf pa lf u)"
proof -
  from mem consider t where "t \<in> set forest" "u' \<in> set (tree_nodes (insert_leaf pa lf t))"
    | e where "e \<in> set extra" "u' \<in> set (tree_nodes e)"
    by (auto simp: forest_nodes_def)
  then show ?thesis
  proof cases
    case 1
    from tree_nodes_insert_leaf [OF leaf 1(2)] 1(1) show ?thesis
      by (auto simp: forest_nodes_def)
  next
    case 2
    with extra have "e = lf" by auto
    with 2 leaf show ?thesis by (simp add: tree_nodes_unfold [of lf])
  qed
qed

lemma leaf_of_simps [simp]:
  "t_ref (leaf_of n r) = n" "t_children (leaf_of n r) = []"
  "t_parent_id (leaf_of n r) = r_parent_id r" "t_id (leaf_of n r) = r_id r"
  "node_fields (leaf_of n r) = row_fields r"
  by (simp_all add: leaf_of_def node_fields_def row_fields_def)

lemma node_ok_leaf: "node_ok (rows @ [r]) (leaf_of (length rows) r)"
  by (simp add: node_ok_def shows_row_def)

lemma shows_row_id: "shows_row rows u \<Longrightarrow> t_id u = r_id (rows ! t_ref u)"
  by (simp add: shows_row_def node_fields_def row_fields_def)

lemma node_ok_insert_leaf:
  assumes ok: "\<forall>u \<in> set (forest_nodes forest). node_ok rows u"
    and u: "u \<in> set (forest_nodes forest)"
    and par: "pa < length rows \<longrightarrow> r_parent_id r = Some (r_id (rows ! pa))"
  shows "node_ok (rows @ [r]) (insert_leaf pa (leaf_of (length rows) r) u)"
proof -
  let ?n = "length rows" and ?lf = "leaf_of (length rows) r"
  from ok u have oku: "node_ok rows u" by blast
  then have ref: "t_ref u < ?n" and fields: "node_fields u = row_fields (rows ! t_ref u)"
    and sorted: "sorted_wrt (<) (map t_ref (t_children u))"
    and kids: "\<forall>c \<in> set (t_children u). t_ref u < t_ref c \<and> t_parent_id c = Some (t_id u)"
    by (simp_all add: node_ok_def shows_row_def)
  have kid_refs: "t_ref c < ?n" if "c \<in> set (t_children u)" for c
  proof -
    from forest_nodes_trans [OF u that] ok have "node_ok rows c" by blast
    then show ?thesis by (simp add: node_ok_def shows_row_def)
  qed
  have 1: "shows_row (rows @ [r]) (insert_leaf pa ?lf u)"
    using ref fields by (simp add: shows_row_def nth_append)
  have refs: "map t_ref (t_children (insert_leaf pa ?lf u)) =
      map t_ref (t_children u) @ (if t_ref u = pa then [?n] else [])"
    by (simp add: insert_leaf_children o_def)
  have 2: "sorted_wrt (<) (map t_ref (t_children (insert_leaf pa ?lf u)))"
    unfolding refs using sorted kid_refs by (auto simp: sorted_wrt_append)
  have 3: "t_ref (insert_leaf pa ?lf u) < t_ref c' \<and>
      t_parent_id c' = Some (t_id (insert_leaf pa ?lf u))"
    if "c' \<in> set (t_children (insert_leaf pa ?lf u))" for c'
  proof -
    from that consider c where "c \<in> set (t_children u)" "c' = insert_leaf pa ?lf c"
      | "t_ref u = pa" "c' = ?lf"
      by (auto simp: insert_leaf_children split: if_splits)
    then show ?thesis
    proof cases
      case 1
      with kids show ?thesis by simp
    next
      case 2
      with ref par have "r_parent_id r = Some (r_id (rows ! t_ref u))" by simp
      moreover from oku have "t_id u = r_id (rows ! t_ref u)"
        by (simp add: node_ok_def shows_row_id)
      ultimately show ?thesis using 2 ref by simp
    qed
  qed
  from 1 2 3 show ?thesis by (simp add: node_ok_def)
qed


lemma parents_first_snoc:
  assumes "parents_first (rows @ [r])"
  shows "parents_first rows" and "r_id r \<notin> r_id ` set rows"
    and "r_parent_id r = Some p \<Longrightarrow> p \<in> r_id ` set rows"
proof -
  let ?n = "length rows"
  from assms have dist: "distinct (map r_id (rows @ [r]))"
    and par: "\<forall>i \<in> set [0..<Suc ?n].
        case r_parent_id ((rows @ [r]) ! i) of None \<Rightarrow> True
        | Some p \<Rightarrow> p \<in> r_id ` set (take i (rows @ [r]))"
    by (simp_all add: parents_first_def)
  from dist show "r_id r \<notin> r_id ` set rows" by simp
  have "case r_parent_id (rows ! i) of None \<Rightarrow> True | Some p \<Rightarrow> p \<in> r_id ` set (take i rows)"
    if "i < ?n" for i
  proof -
    from that have "i \<in> set [0..<Suc ?n]" by simp
    with par have "case r_parent_id ((rows @ [r]) ! i) of None \<Rightarrow> True
        | Some p \<Rightarrow> p \<in> r_id ` set (take i (rows @ [r]))" by blast
    moreover from that have "take i (rows @ [r]) = take i rows" by simp
    ultimately show ?thesis using that by (auto simp: nth_append split: option.splits)
  qed
  with dist show "parents_first rows" by (simp add: parents_first_def)
  from par have "case r_parent_id ((rows @ [r]) ! ?n) of None \<Rightarrow> True
      | Some p \<Rightarrow> p \<in> r_id ` set (take ?n (rows @ [r]))"
    by simp
  then show "r_parent_id r = Some p \<Longrightarrow> p \<in> r_id ` set rows"
    by simp
qed

lemma in_set_count_list: "(x \<in> set xs) = (0 < count_list xs x)"
  by (induction xs) auto

lemma tree_inv_step:
  assumes inv: "tree_inv rows st forest"
  shows "tree_inv (rows @ [r]) (tree_step st r)
    (map (insert_leaf (attach_ref st r) (leaf_of (length rows) r)) forest @
      (if r_parent_id r = None then [leaf_of (length rows) r] else []))"
proof -
  let ?n = "length rows"
  let ?pa = "attach_ref st r" and ?lf = "leaf_of (length rows) r"
  let ?extra = "if r_parent_id r = None then [?lf] else []"
  let ?forest' = "map (insert_leaf ?pa ?lf) forest @ ?extra"
  let ?refs = "map t_ref (forest_nodes forest)"
  let ?refs' = "map t_ref (forest_nodes ?forest')"
  from inv have len: "length (store st) = ?n"
    and closed: "\<forall>a < ?n. \<forall>c \<in> set (cd_children (store st ! a)). c < ?n"
    and dict: "\<forall>k a. categories_dict st k = Some a \<longrightarrow> a < ?n \<and> r_id (rows ! a) = k"
    and dom: "\<forall>r \<in> set rows. categories_dict st (r_id r) \<noteq> None"
    and roots: "root_categories st = filter (\<lambda>i. r_parent_id (rows ! i) = None) [0..<?n]"
    and forest: "forest_of st = Some forest"
    and root_refs: "map t_ref forest = root_categories st"
    and ok: "\<forall>u \<in> set (forest_nodes forest). node_ok rows u"
    and distinct: "distinct ?refs"
    and perm: "parents_first rows \<longrightarrow> set ?refs = {..<?n}"
    by (simp_all add: tree_inv_def)
  from dict len have dict_lt: "\<forall>k a. categories_dict st k = Some a \<longrightarrow> a < length (store st)"
    by simp
  have pa_le: "?pa \<le> ?n"
    using attach_ref_le [OF dict_lt, of r] len by simp
  have refs_lt: "x < ?n" if "x \<in> set ?refs" for x
    using that ok by (auto simp: node_ok_def shows_row_def)
  have leaf: "t_children ?lf = []" by simp
  have extra: "set ?extra \<subseteq> {?lf}" by auto
  \<comment> \<open>the store\<close>
  have 1: "length (store (tree_step st r)) = length (rows @ [r])"
    by (simp add: tree_step_length len)
  have 2: "\<forall>a < length (rows @ [r]). \<forall>c \<in> set (cd_children (store (tree_step st r) ! a)).
      c < length (rows @ [r])"
  proof (intro allI impI ballI)
    fix a c assume a: "a < length (rows @ [r])"
      and c: "c \<in> set (cd_children (store (tree_step st r) ! a))"
    show "c < length (rows @ [r])"
    proof (cases "a < ?n")
      case True
      with c len have "c \<in> set (cd_children (store st ! a)) \<or> c = ?n"
        by (auto simp: tree_step_old split: if_splits)
      moreover from closed True have "\<forall>c \<in> set (cd_children (store st ! a)). c < ?n"
        by blast
      ultimately show ?thesis by auto
    next
      case False
      with a have "a = length (store st)" using len by simp
      with c tree_step_new_children [OF dict_lt, of r] len show ?thesis by auto
    qed
  qed
  have 3: "\<forall>k a. categories_dict (tree_step st r) k = Some a \<longrightarrow>
      a < length (rows @ [r]) \<and> r_id ((rows @ [r]) ! a) = k"
  proof (intro allI impI)
    fix k a assume ka: "categories_dict (tree_step st r) k = Some a"
    show "a < length (rows @ [r]) \<and> r_id ((rows @ [r]) ! a) = k"
    proof (cases "k = r_id r")
      case True
      with ka len have "a = ?n" by (simp add: tree_step_dict)
      with True show ?thesis by simp
    next
      case False
      with ka have "categories_dict st k = Some a" by (simp add: tree_step_dict)
      with dict have "a < ?n \<and> r_id (rows ! a) = k" by blast
      then show ?thesis by (simp add: nth_append)
    qed
  qed
  have 4: "\<forall>r' \<in> set (rows @ [r]). categories_dict (tree_step st r) (r_id r') \<noteq> None"
    using dom by (auto simp: tree_step_dict)
  have 5: "root_categories (tree_step st r) =
      filter (\<lambda>i. r_parent_id ((rows @ [r]) ! i) = None) [0..<length (rows @ [r])]"
  proof -
    have "filter (\<lambda>i. r_parent_id ((rows @ [r]) ! i) = None) [0..<?n] =
        filter (\<lambda>i. r_parent_id (rows ! i) = None) [0..<?n]"
      by (rule filter_cong) (simp_all add: nth_append)
    then show ?thesis
      by (simp add: tree_step_roots roots len)
  qed
  \<comment> \<open>the forest\<close>
  have root_lt: "\<forall>a \<in> set (root_categories st). a < ?n"
    by (simp add: roots)
  have 6: "forest_of (tree_step st r) = Some ?forest'"
    using forest_of_step [OF len closed _ root_lt forest, of r] dict by blast
  have 7: "map t_ref ?forest' = root_categories (tree_step st r)"
    by (simp add: tree_step_roots root_refs len o_def)
  have par: "?pa < ?n \<longrightarrow> r_parent_id r = Some (r_id (rows ! ?pa))"
    using attach_ref_parent [OF dict len] by blast
  have 8: "\<forall>u' \<in> set (forest_nodes ?forest'). node_ok (rows @ [r]) u'"
  proof
    fix u' assume "u' \<in> set (forest_nodes ?forest')"
    from forest_nodes_insert_leaf [OF leaf extra this]
    show "node_ok (rows @ [r]) u'"
      using node_ok_leaf [of rows r] node_ok_insert_leaf [OF ok _ par] by auto
  qed
  \<comment> \<open>how often a reference occurs\<close>
  have count_extra: "count_list (map t_ref (forest_nodes ?extra)) x =
      (if r_parent_id r = None \<and> x = ?n then 1 else 0)" for x
    by (simp add: forest_nodes_def tree_nodes_unfold [of ?lf])
  have count': "count_list ?refs' x =
      count_list ?refs x + (if x = ?n then count_list ?refs ?pa else 0) +
      (if r_parent_id r = None \<and> x = ?n then 1 else 0)" for x
    using count_refs_forest_insert [OF leaf, of ?pa forest ?extra x] count_extra [of x]
    by simp
  have count_n: "count_list ?refs ?n = 0"
    using refs_lt [of ?n] by (auto simp: count_list_0_iff)
  have count_le: "count_list ?refs x \<le> 1" for x
    using distinct by (simp add: distinct_count_list)
  have root_pa: "r_parent_id r = None \<Longrightarrow> ?pa = ?n"
    by (simp add: attach_ref_root len)
  have 9: "distinct ?refs'"
    unfolding distinct_count_list
  proof
    fix x show "count_list ?refs' x \<le> 1"
    proof (cases "x = ?n")
      case True
      show ?thesis
      proof (cases "r_parent_id r = None")
        case None: True
        with True count_n root_pa count' [of x] show ?thesis by auto
      next
        case False
        with True count_n count_le [of ?pa] count' [of x] show ?thesis by auto
      qed
    next
      case False
      with count_le [of x] count' [of x] show ?thesis by auto
    qed
  qed
  have 10: "set ?refs' = {..<length (rows @ [r])}" if pf: "parents_first (rows @ [r])"
  proof -
    from parents_first_snoc [OF pf] perm
    have all: "set ?refs = {..<?n}" and fresh: "r_id r \<notin> r_id ` set rows"
      and known: "\<And>p. r_parent_id r = Some p \<Longrightarrow> p \<in> r_id ` set rows"
      by blast+
    have pos: "count_list ?refs x > 0" if "x < ?n" for x
    proof -
      from that all have "x \<in> set ?refs" by blast
      then show ?thesis by (simp only: in_set_count_list)
    qed
    have new: "count_list ?refs' ?n > 0"
    proof (cases "r_parent_id r")
      case None
      with count' [of ?n] show ?thesis by auto
    next
      case (Some p)
      from known [OF Some] obtain q where q: "q \<in> set rows" "p = r_id q" by auto
      with dom obtain a where a: "categories_dict st p = Some a" by auto
      from known [OF Some] fresh have "p \<noteq> r_id r" by metis
      from attach_ref_found [OF Some this a] dict a have "?pa < ?n" by auto
      from pos [OF this] count' [of ?n] show ?thesis by auto
    qed
    have "(count_list ?refs' x > 0) = (x < Suc ?n)" for x
    proof (cases "x < ?n")
      case True
      with pos [of x] count' [of x] show ?thesis by auto
    next
      case False
      show ?thesis
      proof (cases "x = ?n")
        case True
        with new show ?thesis by simp
      next
        case ne: False
        with False have "x \<notin> set ?refs" using refs_lt [of x] by auto
        with ne False count' [of x] show ?thesis by auto
      qed
    qed
    then have "(x \<in> set ?refs') = (x < Suc ?n)" for x
      by (simp only: in_set_count_list)
    then have "set ?refs' = {..<Suc ?n}"
      by (intro set_eqI) (simp only: lessThan_iff)
    then show ?thesis by simp
  qed
  from 1 2 3 4 5 6 7 8 9 10 show ?thesis
    unfolding tree_inv_def by blast
qed

section \<open>Proofs: the forest of BuildTree\<close>

lemma tree_inv_init: "tree_inv [] tree_init []"
  by (simp add: tree_inv_def tree_init_def forest_of_def forest_nodes_def parents_first_def)

lemma build_tree_snoc: "build_tree (rows @ [r]) = tree_step (build_tree rows) r"
  by (simp add: build_tree_def)

lemma build_tree_inv: "\<exists>forest. tree_inv rows (build_tree rows) forest"
proof (induction rows rule: rev_induct)
  case Nil
  have "build_tree [] = tree_init" by (simp add: build_tree_def)
  with tree_inv_init show ?case by auto
next
  case (snoc r rows)
  then obtain forest where "tree_inv rows (build_tree rows) forest" by blast
  from tree_inv_step [OF this, of r] show ?case
    unfolding build_tree_snoc by blast
qed

lemma BuildTree_forest:
  obtains forest where "BuildTree rows = Some forest"
    and "map t_ref forest = filter (\<lambda>i. r_parent_id (rows ! i) = None) [0..<length rows]"
    and "\<forall>u \<in> set (forest_nodes forest). node_ok rows u"
    and "distinct (map t_ref (forest_nodes forest))"
    and "parents_first rows \<longrightarrow> set (map t_ref (forest_nodes forest)) = {..<length rows}"
proof -
  from build_tree_inv [of rows] obtain forest where "tree_inv rows (build_tree rows) forest"
    by blast
  then have "BuildTree rows = Some forest"
    and "map t_ref forest = filter (\<lambda>i. r_parent_id (rows ! i) = None) [0..<length rows]"
    and "\<forall>u \<in> set (forest_nodes forest). node_ok rows u"
    and "distinct (map t_ref (forest_nodes forest))"
    and "parents_first rows \<longrightarrow> set (map t_ref (forest_nodes forest)) = {..<length rows}"
    by (simp_all add: tree_inv_def BuildTree_def)
  then show ?thesis by (rule that)
qed











text \<open>
  C2, amended. When the ids of the rows are distinct and every row with a parent_id
  comes after the row with that id, BuildTree returns a forest in which every position
  of the input occurs exactly once, each node showing the row at its position: the
  nodes of the forest are the rows of the input, each once.
\<close>

theorem every_row_once_parents_first:
  assumes "parents_first rows"
  shows "\<exists>forest. BuildTree rows = Some forest
     \<and> mset (map t_ref (forest_nodes forest)) = mset [0..<length rows]
     \<and> (\<forall>u \<in> set (forest_nodes forest). shows_row rows u)
     \<and> mset (map node_fields (forest_nodes forest)) = mset (map row_fields rows)"
proof -
  obtain forest where built: "BuildTree rows = Some forest"
    and ok: "\<forall>u \<in> set (forest_nodes forest). node_ok rows u"
    and dist: "distinct (map t_ref (forest_nodes forest))"
    and all: "parents_first rows \<longrightarrow> set (map t_ref (forest_nodes forest)) = {..<length rows}"
    by (rule BuildTree_forest)
  from ok have shown: "\<forall>u \<in> set (forest_nodes forest). shows_row rows u"
    by (simp add: node_ok_def)
  from all assms have "set (map t_ref (forest_nodes forest)) = set [0..<length rows]"
    by (simp add: lessThan_atLeast0)
  with dist have refs: "mset (map t_ref (forest_nodes forest)) = mset [0..<length rows]"
    by (simp only: set_eq_iff_mset_eq_distinct [symmetric] distinct_upt)
  have "map node_fields (forest_nodes forest) =
      map (\<lambda>i. row_fields (rows ! i)) (map t_ref (forest_nodes forest))"
    using shown by (simp add: shows_row_def)
  then have "mset (map node_fields (forest_nodes forest)) =
      image_mset (\<lambda>i. row_fields (rows ! i)) (mset (map t_ref (forest_nodes forest)))"
    by (simp only: mset_map)
  also have "\<dots> = mset (map (\<lambda>i. row_fields (rows ! i)) [0..<length rows])"
    by (simp only: refs) simp
  also have "map (\<lambda>i. row_fields (rows ! i)) [0..<length rows] = map row_fields rows"
  proof -
    have "map (\<lambda>i. row_fields (rows ! i)) [0..<length rows] =
        map row_fields (map ((!) rows) [0..<length rows])"
      by (simp only: map_map o_def)
    then show ?thesis by (simp only: map_nth)
  qed
  finally have "mset (map node_fields (forest_nodes forest)) = mset (map row_fields rows)" .
  with built refs shown show ?thesis by blast
qed


lemma sample_rows_eval:
  "BuildTree sample_rows =
    Some [CategoryTree 0 1 ''Bytovaya tekhnika'' None (Some 0) None
            [CategoryTree 2 3 ''Stiralnye mashiny'' (Some 1) (Some 0) None [],
             CategoryTree 3 4 ''Kholodilniki'' (Some 1) (Some 0) None []],
          CategoryTree 1 2 ''Kompyutery'' None (Some 0) None
            [CategoryTree 4 5 ''Noutbuki'' (Some 2) (Some 0) None []]]"
  by (simp add: sample_rows_def mk_row_def BuildTree_def build_tree_def tree_step_def
      tree_init_def forest_of_def Let_def append_child_def)

text \<open>
  The five test categories, roots first: all five are in the forest.
\<close>

theorem every_row_once_parents_first_witness:
  "map t_ref (forest_nodes (the (BuildTree sample_rows))) = [0, 2, 3, 1, 4]
   \<and> map t_id (forest_nodes (the (BuildTree sample_rows))) = [1, 3, 4, 2, 5]
   \<and> map r_id sample_rows = [1, 2, 3, 4, 5]"
proof -
  have "parents_first sample_rows"
    by (simp add: parents_first_def sample_rows_def mk_row_def)
  from every_row_once_parents_first [OF this] show ?thesis
    by (simp add: sample_rows_eval forest_nodes_def) (simp add: sample_rows_def mk_row_def)
qed

text \<open>
  C2 as stated fails. A child that is read before its parent finds no entry for the
  parent in \<open>categories_dict\<close> and is appended nowhere: the forest has the root alone.
\<close>

theorem child_before_parent_counterexample:
  "BuildTree child_first_rows = Some [CategoryTree 1 1 ''Root'' None (Some 0) None []]
   \<and> map r_id child_first_rows = [3, 1]
   \<and> map t_id (forest_nodes (the (BuildTree child_first_rows))) = [1]"
  by (simp add: child_first_rows_def mk_row_def BuildTree_def build_tree_def tree_step_def
      tree_init_def forest_of_def Let_def append_child_def forest_nodes_def)














end
